theory Spec2Isabelle
  imports Main
begin

section \<open>Data model\<close>

text \<open>
  The program keeps its transaction batches in Python lists, which are objects with an
  identity: \<open>mine\<close> hands the very list held in \<open>unconfirmed_transactions\<close>
  to the new block, and \<open>add_new_transaction\<close> appends to that list in place. List objects
  therefore live in an explicit store, and a block or an engine holds a reference into it.
  Strings and integers are immutable values and are kept as such.
\<close>

type_synonym ref = nat

type_synonym list_store = "ref \<Rightarrow> string list"

text \<open>
  Class \<open>Block\<close>. The timestamp is whatever the clock returned (a float in the source);
  its type is left open, and its rendering by \<open>str\<close> is a parameter of the hash functions.
\<close>

record 't block =
  index :: int
  transactions :: ref
  timestamp :: 't
  previous_hash :: string
  nonce :: int
  transactions_hash :: string
  hash :: string

text \<open>
  Class \<open>Blockchain\<close>: the two attributes of the instance, and the store of the list
  objects its fields and its blocks refer to.
\<close>

record 't blockchain =
  unconfirmed_transactions :: ref
  chain :: "'t block list"
  heap :: list_store

text \<open>The class attribute \<open>difficulty = 4\<close>.\<close>

definition difficulty :: nat where
  "difficulty = 4"

datatype error = IndexError

text \<open>What \<open>mine\<close> returns: the value \<open>False\<close>, or the new block.\<close>

datatype 't mine_result = ReturnedFalse | ReturnedBlock "'t block"

section \<open>Strings\<close>

text \<open>\<open>str\<close> of a Python integer: decimal digits, with a minus sign below zero.\<close>

definition digit_char :: "nat \<Rightarrow> char" where
  "digit_char d = ''0123456789'' ! d"

fun str_nat :: "nat \<Rightarrow> string" where
  "str_nat n = (if n < 10 then [digit_char n] else str_nat (n div 10) @ [digit_char (n mod 10)])"

declare str_nat.simps [simp del]

definition str_int :: "int \<Rightarrow> string" where
  "str_int i = (if i < 0 then CHR ''-'' # str_nat (nat (- i)) else str_nat (nat i))"

text \<open>\<open>s.startswith(p)\<close>.\<close>

definition startswith :: "string \<Rightarrow> string \<Rightarrow> bool" where
  "startswith s p = (take (length p) s = p)"

text \<open>The number of \<open>0\<close> characters a string begins with.\<close>

definition leading_zeros :: "string \<Rightarrow> nat" where
  "leading_zeros s = length (takeWhile (\<lambda>c. c = CHR ''0'') s)"

section \<open>Block\<close>

text \<open>
  The digest \<open>hashlib.sha256(s.encode()).hexdigest()\<close> is a library function; it is the
  parameter \<open>H\<close> below, and \<open>st\<close> is \<open>str\<close> on timestamps.
\<close>

definition compute_transactions_hash ::
  "(string \<Rightarrow> string) \<Rightarrow> list_store \<Rightarrow> 't block \<Rightarrow> string" where
  "compute_transactions_hash H \<sigma> b =
     (let transactions_string = concat (\<sigma> (transactions b)) in H transactions_string)"

definition compute_hash ::
  "(string \<Rightarrow> string) \<Rightarrow> ('t \<Rightarrow> string) \<Rightarrow> 't block \<Rightarrow> string" where
  "compute_hash H st b =
     (let block_string = concat [str_int (index b), st (timestamp b), previous_hash b,
                                 str_int (nonce b), transactions_hash b]
      in H block_string)"

definition Block_init ::
  "(string \<Rightarrow> string) \<Rightarrow> ('t \<Rightarrow> string) \<Rightarrow> list_store \<Rightarrow>
     int \<Rightarrow> ref \<Rightarrow> 't \<Rightarrow> string \<Rightarrow> int \<Rightarrow> 't block" where
  "Block_init H st \<sigma> i txs ts prev n =
     (let b0 = \<lparr>index = i, transactions = txs, timestamp = ts, previous_hash = prev,
                nonce = n, transactions_hash = [], hash = []\<rparr>;
          b1 = b0\<lparr>transactions_hash := compute_transactions_hash H \<sigma> b0\<rparr>
      in b1\<lparr>hash := compute_hash H st b1\<rparr>)"

section \<open>Blockchain\<close>

text \<open>
  A list display \<open>[]\<close> creates a new list object. Its reference is one that neither the
  engine nor any block of its chain holds.
\<close>

definition fresh_ref :: "'t blockchain \<Rightarrow> ref" where
  "fresh_ref s = Suc (fold max (map transactions (chain s)) (unconfirmed_transactions s))"

definition create_genesis_block ::
  "(string \<Rightarrow> string) \<Rightarrow> ('t \<Rightarrow> string) \<Rightarrow> 't \<Rightarrow> 't blockchain \<Rightarrow> 't blockchain" where
  "create_genesis_block H st now s =
     (let r = fresh_ref s;
          \<sigma> = (heap s)(r := []);
          genesis_block = Block_init H st \<sigma> 0 r now ''0'' 0
      in s\<lparr>chain := chain s @ [genesis_block], heap := \<sigma>\<rparr>)"

definition Blockchain_init ::
  "(string \<Rightarrow> string) \<Rightarrow> ('t \<Rightarrow> string) \<Rightarrow> 't \<Rightarrow> 't blockchain" where
  "Blockchain_init H st now =
     create_genesis_block H st now
       \<lparr>unconfirmed_transactions = 0, chain = [], heap = (\<lambda>_. [])\<rparr>"

definition meets_difficulty :: "string \<Rightarrow> bool" where
  "meets_difficulty h = startswith h (replicate difficulty CHR ''0'')"

definition is_valid_proof ::
  "(string \<Rightarrow> string) \<Rightarrow> ('t \<Rightarrow> string) \<Rightarrow> 't block \<Rightarrow> bool" where
  "is_valid_proof H st b = (meets_difficulty (hash b) \<and> hash b = compute_hash H st b)"

definition add_block ::
  "(string \<Rightarrow> string) \<Rightarrow> ('t \<Rightarrow> string) \<Rightarrow> 't blockchain \<Rightarrow> 't block \<Rightarrow> bool \<times> 't blockchain" where
  "add_block H st s b =
     (if chain s \<noteq> [] \<and> previous_hash b \<noteq> hash (last (chain s)) then (False, s)
      else if \<not> is_valid_proof H st b then (False, s)
      else (True, s\<lparr>chain := chain s @ [b]\<rparr>))"

text \<open>
  One turn of the loop of \<open>proof_of_work\<close>: \<open>block.nonce += 1\<close>, then
  \<open>block.hash = block.compute_hash()\<close>.
\<close>

definition pow_step ::
  "(string \<Rightarrow> string) \<Rightarrow> ('t \<Rightarrow> string) \<Rightarrow> 't block \<Rightarrow> 't block" where
  "pow_step H st b = (let b1 = b\<lparr>nonce := nonce b + 1\<rparr> in b1\<lparr>hash := compute_hash H st b1\<rparr>)"

text \<open>
  The loop has no bound; where it runs forever the result is \<open>None\<close>. It returns the hash,
  and the block as the loop left it.
\<close>

partial_function (option) proof_of_work ::
  "(string \<Rightarrow> string) \<Rightarrow> ('t \<Rightarrow> string) \<Rightarrow> 't block \<Rightarrow> (string \<times> 't block) option" where
  [code]: "proof_of_work H st b =
     (if \<not> meets_difficulty (hash b) then proof_of_work H st (pow_step H st b)
      else Some (hash b, b))"

definition add_new_transaction :: "'t blockchain \<Rightarrow> string \<Rightarrow> 't blockchain" where
  "add_new_transaction s transaction =
     s\<lparr>heap := (heap s)(unconfirmed_transactions s :=
                  heap s (unconfirmed_transactions s) @ [transaction])\<rparr>"

definition mine ::
  "(string \<Rightarrow> string) \<Rightarrow> ('t \<Rightarrow> string) \<Rightarrow> 't \<Rightarrow> 't blockchain \<Rightarrow>
     ((error + 't mine_result) \<times> 't blockchain) option" where
  "mine H st now s =
     (if heap s (unconfirmed_transactions s) = [] then Some (Inr ReturnedFalse, s)
      else if chain s = [] then Some (Inl IndexError, s)
      else
        let last_block = last (chain s);
            new_block = Block_init H st (heap s) (index last_block + 1)
                          (unconfirmed_transactions s) now (hash last_block) 0
        in case proof_of_work H st new_block of
             None \<Rightarrow> None
           | Some (h, mined) \<Rightarrow>
               let sealed = mined\<lparr>hash := h\<rparr>;
                   s1 = snd (add_block H st s sealed);
                   r = fresh_ref s1
               in Some (Inr (ReturnedBlock sealed),
                        s1\<lparr>unconfirmed_transactions := r, heap := (heap s1)(r := [])\<rparr>))"

section \<open>Auxiliary notions for the statements\<close>

text \<open>The block that \<open>mine\<close> builds before the search.\<close>

definition candidate ::
  "(string \<Rightarrow> string) \<Rightarrow> ('t \<Rightarrow> string) \<Rightarrow> 't \<Rightarrow> 't blockchain \<Rightarrow> 't block" where
  "candidate H st now s =
     Block_init H st (heap s) (index (last (chain s)) + 1) (unconfirmed_transactions s) now
       (hash (last (chain s))) 0"

text \<open>
  The engine after \<open>mine\<close> has appended the block \<open>mined\<close> and bound
  \<open>unconfirmed_transactions\<close> to a new empty list.
\<close>

definition after_mine :: "'t blockchain \<Rightarrow> 't block \<Rightarrow> 't blockchain" where
  "after_mine s mined =
     (let s1 = s\<lparr>chain := chain s @ [mined]\<rparr>; r = fresh_ref s1
      in s1\<lparr>unconfirmed_transactions := r, heap := (heap s1)(r := [])\<rparr>)"

text \<open>
  The last three statements of \<open>mine\<close>, on the engine as it is when they run:
  \<open>self.add_block(new_block)\<close>, whose answer is dropped,
  \<open>self.unconfirmed_transactions = []\<close> and \<open>return new_block\<close>.
\<close>

definition mine_tail ::
  "(string \<Rightarrow> string) \<Rightarrow> ('t \<Rightarrow> string) \<Rightarrow> 't blockchain \<Rightarrow> 't block \<Rightarrow>
     't mine_result \<times> 't blockchain" where
  "mine_tail H st s new_block =
     (let s1 = snd (add_block H st s new_block);
          r = fresh_ref s1
      in (ReturnedBlock new_block,
          s1\<lparr>unconfirmed_transactions := r, heap := (heap s1)(r := [])\<rparr>))"

text \<open>
  Calls a client can make on an engine, and the engine after a sequence of them. A call of
  \<open>mine\<close> carries the time the clock shows; a sequence has no final state where a search
  does not return.
\<close>

datatype 't op = AddTransaction string | Mine 't | AddBlock "'t block"

fun apply_op ::
  "(string \<Rightarrow> string) \<Rightarrow> ('t \<Rightarrow> string) \<Rightarrow> 't blockchain \<Rightarrow> 't op \<Rightarrow> 't blockchain option" where
  "apply_op H st s (AddTransaction p) = Some (add_new_transaction s p)"
| "apply_op H st s (Mine now) = map_option snd (mine H st now s)"
| "apply_op H st s (AddBlock b) = Some (snd (add_block H st s b))"

fun run ::
  "(string \<Rightarrow> string) \<Rightarrow> ('t \<Rightarrow> string) \<Rightarrow> 't op list \<Rightarrow> 't blockchain \<Rightarrow> 't blockchain option" where
  "run H st [] s = Some s"
| "run H st (x # xs) s = (case apply_op H st s x of None \<Rightarrow> None | Some s' \<Rightarrow> run H st xs s')"

text \<open>Every block but the first names the hash of the block before it.\<close>

fun linked :: "'t block list \<Rightarrow> bool" where
  "linked (a # b # bs) = (previous_hash b = hash a \<and> linked (b # bs))"
| "linked _ = True"

text \<open>No block of the chain holds the list object that the pending pool is.\<close>

definition unshared :: "'t blockchain \<Rightarrow> bool" where
  "unshared s = list_all (\<lambda>b. transactions b \<noteq> unconfirmed_transactions s) (chain s)"

section \<open>A concrete engine\<close>

text \<open>
  The theorems below hold for every digest function. Where one of them is instantiated, the
  digest is this small one, which lets a search end after a few steps, timestamps are natural
  numbers rendered in decimal, and the engine is created at time 7.
\<close>

definition demo_digest :: "string \<Rightarrow> string" where
  "demo_digest s = (if CHR ''3'' \<in> set s then ''0000a'' else ''beef'')"

definition demo_engine :: "nat blockchain" where
  "demo_engine = Blockchain_init demo_digest str_nat 7"

definition demo_pending :: "nat blockchain" where
  "demo_pending =
     add_new_transaction (add_new_transaction demo_engine ''A pays B 1 unit'') ''B pays C 2 units''"

definition demo_ops :: "nat op list" where
  "demo_ops = [AddTransaction ''A pays B 1 unit'', AddTransaction ''B pays C 2 units'', Mine 8]"

definition demo_end :: "nat blockchain" where
  "demo_end = the (run demo_digest str_nat demo_ops demo_engine)"



text \<open>A block whose \<open>hash\<close> attribute was overwritten after construction.\<close>

definition stale_block :: "nat block" where
  "stale_block = \<lparr>index = 1, transactions = 1, timestamp = 8, previous_hash = ''beef'',
                  nonce = 0, transactions_hash = ''beef'', hash = ''0000''\<rparr>"

text \<open>
  A block built by a client as \<open>Block(1, engine.unconfirmed_transactions, 8, tip.hash, 3)\<close>:
  its transactions are the engine's own pending list.
\<close>

definition shared_block :: "nat block" where
  "shared_block =
     Block_init demo_digest str_nat (heap demo_engine) 1 (unconfirmed_transactions demo_engine) 8
       (hash (last (chain demo_engine))) 3"

definition demo_shared :: "nat blockchain" where
  "demo_shared = snd (add_block demo_digest str_nat demo_engine shared_block)"

text \<open>Two lists of payloads that differ and have the same concatenation.\<close>

definition split_one :: list_store where
  "split_one = (\<lambda>_. [])(0 := [''ab'', ''c''])"

definition split_two :: list_store where
  "split_two = (\<lambda>_. [])(0 := [''a'', ''bc''])"

section \<open>Strings and the difficulty target\<close>

lemma startswith_replicate:
  "startswith s (replicate n c) \<longleftrightarrow> n \<le> length (takeWhile (\<lambda>x. x = c) s)"
proof (induction s arbitrary: n)
  case Nil
  show ?case by (cases n) (simp_all add: startswith_def)
next
  case (Cons x xs)
  show ?case
  proof (cases n)
    case 0
    then show ?thesis by (simp add: startswith_def)
  next
    case (Suc m)
    have "startswith (x # xs) (replicate (Suc m) c) \<longleftrightarrow> x = c \<and> startswith xs (replicate m c)"
      by (auto simp: startswith_def)
    with Cons [of m] Suc show ?thesis by auto
  qed
qed

lemma meets_difficulty_leading_zeros:
  "meets_difficulty h \<longleftrightarrow> difficulty \<le> leading_zeros h"
  by (simp add: meets_difficulty_def leading_zeros_def startswith_replicate)

lemma meets_difficulty_take: "meets_difficulty h \<longleftrightarrow> take 4 h = ''0000''"
  by (simp add: meets_difficulty_def startswith_def difficulty_def eval_nat_numeral)

lemma str_int_examples:
  "str_int 0 = ''0''" "str_int 7 = ''7''" "str_int 2024 = ''2024''" "str_int (- 15) = ''-15''"
  by (simp_all add: str_int_def str_nat.simps digit_char_def)

lemmas demo_defs = demo_digest_def demo_engine_def demo_pending_def stale_block_def shared_block_def
  Blockchain_init_def create_genesis_block_def fresh_ref_def Block_init_def compute_hash_def
  compute_transactions_hash_def str_int_def str_nat.simps digit_char_def add_new_transaction_def
  meets_difficulty_take Let_def candidate_def

lemmas engine_defs = add_block_def is_valid_proof_def demo_shared_def

section \<open>The hashes of a block\<close>

text \<open>
  Claim C7. \<open>compute_hash\<close> is the digest of \<open>str(index)\<close>, \<open>str(timestamp)\<close>,
  \<open>previous_hash\<close>, \<open>str(nonce)\<close> and \<open>transactions_hash\<close> written one after the other,
  with nothing between them.
\<close>

theorem compute_hash_concatenation:
  "compute_hash H st b =
     H (str_int (index b) @ st (timestamp b) @ previous_hash b @ str_int (nonce b)
        @ transactions_hash b)"
  by (simp add: compute_hash_def)

lemma compute_hash_hash_update [simp]:
  "compute_hash H st (b\<lparr>hash := h\<rparr>) = compute_hash H st b"
  by (simp add: compute_hash_def)

lemma transactions_hash_Block_init:
  "transactions_hash (Block_init H st \<sigma> i r ts p n) = H (concat (\<sigma> r))"
  by (simp add: Block_init_def compute_transactions_hash_def Let_def)

text \<open>
  Claim C8. \<open>compute_transactions_hash\<close> is the digest of the payloads written one after the
  other in order, with nothing between them; so two blocks built on lists with the same
  concatenation have the same \<open>transactions_hash\<close>.
\<close>

theorem compute_transactions_hash_concat:
  "compute_transactions_hash H \<sigma> b = H (concat (\<sigma> (transactions b))) \<and>
   (concat (\<sigma> r) = concat (\<sigma>' r') \<longrightarrow>
      transactions_hash (Block_init H st \<sigma> i r ts p n)
        = transactions_hash (Block_init H st' \<sigma>' i' r' ts' p' n'))"
  by (simp add: compute_transactions_hash_def transactions_hash_Block_init)

theorem compute_transactions_hash_concat_witness:
  "concat (split_one 0) = concat (split_two 0)
   \<and> split_one 0 \<noteq> split_two 0
   \<and> transactions_hash (Block_init demo_digest str_nat split_one 1 0 8 ''beef'' 0)
       = transactions_hash (Block_init demo_digest str_nat split_two 1 0 8 ''beef'' 0)"
proof -
  have h1: "concat (split_one 0) = concat (split_two 0)"
    by (simp add: split_one_def split_two_def)
  have h2: "split_one 0 \<noteq> split_two 0"
    by (simp add: split_one_def split_two_def)
  from h1 h2 compute_transactions_hash_concat
    [where \<sigma> = split_one and \<sigma>' = split_two and r = 0 and r' = 0 and H = demo_digest
       and st = str_nat and st' = str_nat and i = 1 and i' = 1 and ts = 8 and ts' = 8
       and p = "''beef''" and p' = "''beef''" and n = 0 and n' = 0]
  show ?thesis by blast
qed

lemma Block_init_fields [simp]:
  "index (Block_init H st \<sigma> i r ts p n) = i"
  "transactions (Block_init H st \<sigma> i r ts p n) = r"
  "timestamp (Block_init H st \<sigma> i r ts p n) = ts"
  "previous_hash (Block_init H st \<sigma> i r ts p n) = p"
  "nonce (Block_init H st \<sigma> i r ts p n) = n"
  by (simp_all add: Block_init_def Let_def)

lemma hash_Block_init:
  "hash (Block_init H st \<sigma> i r ts p n) = compute_hash H st (Block_init H st \<sigma> i r ts p n)"
  by (simp add: Block_init_def Let_def compute_hash_def)

section \<open>Admission of a block\<close>

text \<open>
  Claim C4. \<open>is_valid_proof\<close> holds of a block exactly when its \<open>hash\<close> begins with at
  least \<open>difficulty\<close> zero characters and equals \<open>compute_hash\<close> of the block as it is.
\<close>

theorem is_valid_proof_iff:
  "is_valid_proof H st b \<longleftrightarrow>
     difficulty \<le> leading_zeros (hash b) \<and> hash b = compute_hash H st b"
  by (simp add: is_valid_proof_def meets_difficulty_leading_zeros)

text \<open>
  Claim C3. \<open>add_block\<close> reports success exactly when the link check passes (the chain is
  empty, or \<open>previous_hash\<close> is the hash of the tip) and \<open>is_valid_proof\<close> holds. On success
  the engine is as before with the block appended to its chain; otherwise it returns
  \<open>False\<close> and the engine is unchanged. It raises nothing: the result is a value in every
  case.
\<close>

theorem add_block_checks:
  "fst (add_block H st s b) =
     ((chain s = [] \<or> previous_hash b = hash (last (chain s))) \<and> is_valid_proof H st b)
   \<and> snd (add_block H st s b) =
     (if fst (add_block H st s b) then s\<lparr>chain := chain s @ [b]\<rparr> else s)"
  by (simp add: add_block_def)

theorem add_block_checks_witness:
  "fst (add_block demo_digest str_nat demo_engine shared_block)
   \<and> snd (add_block demo_digest str_nat demo_engine shared_block)
       = demo_engine\<lparr>chain := chain demo_engine @ [shared_block]\<rparr>
   \<and> \<not> fst (add_block demo_digest str_nat demo_engine stale_block)
   \<and> snd (add_block demo_digest str_nat demo_engine stale_block) = demo_engine"
proof -
  have ok: "(chain demo_engine = [] \<or> previous_hash shared_block = hash (last (chain demo_engine)))
      \<and> is_valid_proof demo_digest str_nat shared_block"
    by (simp add: demo_defs is_valid_proof_def)
  have bad: "\<not> is_valid_proof demo_digest str_nat stale_block"
    by (simp add: demo_defs is_valid_proof_def)
  from ok bad
    add_block_checks [of demo_digest str_nat demo_engine shared_block]
    add_block_checks [of demo_digest str_nat demo_engine stale_block]
  show ?thesis by simp
qed

section \<open>The search for a nonce\<close>

lemma pow_step_funpow:
  "(pow_step H st ^^ k) b =
     b\<lparr>nonce := nonce b + int k,
       hash := (if k = 0 then hash b else compute_hash H st (b\<lparr>nonce := nonce b + int k\<rparr>))\<rparr>"
proof (induction k)
  case 0
  show ?case by simp
next
  case (Suc k)
  have "(pow_step H st ^^ Suc k) b = pow_step H st ((pow_step H st ^^ k) b)"
    by simp
  also have "\<dots> = pow_step H st (b\<lparr>nonce := nonce b + int k,
       hash := (if k = 0 then hash b else compute_hash H st (b\<lparr>nonce := nonce b + int k\<rparr>))\<rparr>)"
    by (simp only: Suc)
  also have "\<dots> = b\<lparr>nonce := nonce b + int (Suc k),
       hash := compute_hash H st (b\<lparr>nonce := nonce b + int (Suc k)\<rparr>)\<rparr>"
    by (simp add: pow_step_def Let_def compute_hash_def ac_simps)
  finally show ?case by simp
qed

lemma pow_returns_first:
  assumes "meets_difficulty (hash ((pow_step H st ^^ k) b))"
    and "\<forall>j<k. \<not> meets_difficulty (hash ((pow_step H st ^^ j) b))"
  shows "proof_of_work H st b = Some (hash ((pow_step H st ^^ k) b), (pow_step H st ^^ k) b)"
  using assms
proof (induction k arbitrary: b)
  case 0
  then show ?case by (subst proof_of_work.simps) simp
next
  case (Suc k)
  from Suc.prems(2) have nb: "\<not> meets_difficulty (hash b)" by (metis funpow_0 zero_less_Suc)
  have a: "meets_difficulty (hash ((pow_step H st ^^ k) (pow_step H st b)))"
    using Suc.prems(1) by (simp add: funpow_swap1)
  have b: "\<forall>j<k. \<not> meets_difficulty (hash ((pow_step H st ^^ j) (pow_step H st b)))"
  proof (intro allI impI)
    fix j assume "j < k"
    then have "Suc j < Suc k" by simp
    with Suc.prems(2) have "\<not> meets_difficulty (hash ((pow_step H st ^^ Suc j) b))" by blast
    then show "\<not> meets_difficulty (hash ((pow_step H st ^^ j) (pow_step H st b)))"
      by (simp add: funpow_swap1)
  qed
  have "proof_of_work H st b = proof_of_work H st (pow_step H st b)"
    using nb by (subst proof_of_work.simps) simp
  also have "\<dots> = Some (hash ((pow_step H st ^^ k) (pow_step H st b)), (pow_step H st ^^ k) (pow_step H st b))"
    by (rule Suc.IH [OF a b])
  finally show ?case by (simp add: funpow_swap1)
qed

lemma pow_result_is_first:
  assumes "proof_of_work H st b = Some r"
  shows "\<exists>k. r = (hash ((pow_step H st ^^ k) b), (pow_step H st ^^ k) b)
        \<and> meets_difficulty (hash ((pow_step H st ^^ k) b))
        \<and> (\<forall>j<k. \<not> meets_difficulty (hash ((pow_step H st ^^ j) b)))"
proof (rule proof_of_work.raw_induct
    [where P = "\<lambda>H st b r. \<exists>k. r = (hash ((pow_step H st ^^ k) b), (pow_step H st ^^ k) b)
        \<and> meets_difficulty (hash ((pow_step H st ^^ k) b))
        \<and> (\<forall>j<k. \<not> meets_difficulty (hash ((pow_step H st ^^ j) b)))", OF _ assms])
  fix pow :: "(string \<Rightarrow> string) \<Rightarrow> ('a \<Rightarrow> string) \<Rightarrow> 'a block \<Rightarrow> (string \<times> 'a block) option"
  fix H st b r
  assume IH: "\<And>H st b r. pow H st b = Some r \<Longrightarrow>
     \<exists>k. r = (hash ((pow_step H st ^^ k) b), (pow_step H st ^^ k) b)
        \<and> meets_difficulty (hash ((pow_step H st ^^ k) b))
        \<and> (\<forall>j<k. \<not> meets_difficulty (hash ((pow_step H st ^^ j) b)))"
  assume body: "(if \<not> meets_difficulty (hash b) then pow H st (pow_step H st b)
                 else Some (hash b, b)) = Some r"
  show "\<exists>k. r = (hash ((pow_step H st ^^ k) b), (pow_step H st ^^ k) b)
        \<and> meets_difficulty (hash ((pow_step H st ^^ k) b))
        \<and> (\<forall>j<k. \<not> meets_difficulty (hash ((pow_step H st ^^ j) b)))"
  proof (cases "meets_difficulty (hash b)")
    case True
    with body have "r = (hash b, b)" by simp
    with True show ?thesis by (intro exI [of _ 0]) simp
  next
    case False
    with body have "pow H st (pow_step H st b) = Some r" by simp
    from IH [OF this] obtain k where
      k: "r = (hash ((pow_step H st ^^ k) (pow_step H st b)), (pow_step H st ^^ k) (pow_step H st b))"
         "meets_difficulty (hash ((pow_step H st ^^ k) (pow_step H st b)))"
         "\<forall>j<k. \<not> meets_difficulty (hash ((pow_step H st ^^ j) (pow_step H st b)))"
      by blast
    have "\<forall>j<Suc k. \<not> meets_difficulty (hash ((pow_step H st ^^ j) b))"
    proof (intro allI impI)
      fix j assume j: "j < Suc k"
      show "\<not> meets_difficulty (hash ((pow_step H st ^^ j) b))"
      proof (cases j)
        case 0
        with False show ?thesis by simp
      next
        case (Suc i)
        with j have "i < k" by simp
        with k(3) show ?thesis using Suc by (simp add: funpow_swap1)
      qed
    qed
    with k(1,2) show ?thesis by (intro exI [of _ "Suc k"]) (simp add: funpow_swap1)
  qed
qed

text \<open>What the loop returns, in terms of the number of turns it took.\<close>

lemma proof_of_work_result:
  assumes "proof_of_work H st b = Some (h, b')"
  obtains k where "b' = (pow_step H st ^^ k) b" "h = hash b'" "meets_difficulty (hash b')"
    "\<forall>j<k. \<not> meets_difficulty (hash ((pow_step H st ^^ j) b))"
  using pow_result_is_first [OF assms] by auto

lemma pow_consistent:
  assumes "hash b = compute_hash H st b"
  shows "hash ((pow_step H st ^^ k) b) = compute_hash H st (b\<lparr>nonce := nonce b + int k\<rparr>)"
  using assms by (cases "k = 0") (simp_all add: pow_step_funpow compute_hash_def)

lemma proof_of_work_terminates:
  assumes "hash b = compute_hash H st b"
    and "meets_difficulty (compute_hash H st (b\<lparr>nonce := nonce b + int k\<rparr>))"
  shows "\<exists>r. proof_of_work H st b = Some r"
proof -
  let ?good = "\<lambda>j. meets_difficulty (hash ((pow_step H st ^^ j) b))"
  from assms have "?good k" by (simp add: pow_consistent)
  then have "?good (LEAST j. ?good j)" by (rule LeastI)
  moreover have "\<forall>j<(LEAST j. ?good j). \<not> ?good j"
    using not_less_Least by blast
  ultimately show ?thesis using pow_returns_first by blast
qed

text \<open>
  Claim C9, for a block whose \<open>hash\<close> is its \<open>compute_hash\<close> when the search starts, as it
  is after construction. When \<open>proof_of_work\<close> returns, the nonce of the block is the least
  value from its starting nonce on for which \<open>compute_hash\<close> meets the target, a block whose
  starting hash meets the target keeps its nonce, no other attribute but \<open>hash\<close> has changed,
  and the value returned is the block's \<open>hash\<close>, which is its \<open>compute_hash\<close>.
\<close>

theorem proof_of_work_smallest_nonce:
  assumes "hash b = compute_hash H st b"
    and "proof_of_work H st b = Some (h, b')"
  shows "nonce b \<le> nonce b'
     \<and> meets_difficulty (compute_hash H st (b\<lparr>nonce := nonce b'\<rparr>))
     \<and> (\<forall>n. nonce b \<le> n \<and> n < nonce b' \<longrightarrow>
            \<not> meets_difficulty (compute_hash H st (b\<lparr>nonce := n\<rparr>)))
     \<and> (meets_difficulty (hash b) \<longrightarrow> nonce b' = nonce b)
     \<and> h = hash b' \<and> hash b' = compute_hash H st b'
     \<and> b' = b\<lparr>nonce := nonce b', hash := h\<rparr>"
proof -
  from assms(2) obtain k where k: "b' = (pow_step H st ^^ k) b" "h = hash b'"
    "meets_difficulty (hash b')" "\<forall>j<k. \<not> meets_difficulty (hash ((pow_step H st ^^ j) b))"
    by (rule proof_of_work_result)
  have nonce': "nonce b' = nonce b + int k"
    by (simp add: k(1) pow_step_funpow)
  have hash': "hash b' = compute_hash H st (b\<lparr>nonce := nonce b + int k\<rparr>)"
    unfolding k(1) by (rule pow_consistent [OF assms(1)])
  have shape: "b' = b\<lparr>nonce := nonce b', hash := h\<rparr>"
    unfolding k(2) nonce' by (simp add: k(1) pow_step_funpow)
  have least: "\<not> meets_difficulty (compute_hash H st (b\<lparr>nonce := n\<rparr>))"
    if "nonce b \<le> n" "n < nonce b'" for n
  proof -
    define j where "j = nat (n - nonce b)"
    from that have j: "j < k" "n = nonce b + int j" by (simp_all add: j_def nonce')
    from k(4) j(1) have "\<not> meets_difficulty (hash ((pow_step H st ^^ j) b))" by blast
    then show ?thesis by (simp add: pow_consistent [OF assms(1)] j(2))
  qed
  have unchanged: "nonce b' = nonce b" if "meets_difficulty (hash b)"
  proof -
    have "k = 0"
    proof (rule ccontr)
      assume "k \<noteq> 0"
      then have "0 < k" by simp
      with k(4) have "\<not> meets_difficulty (hash ((pow_step H st ^^ 0) b))" by blast
      with that show False by simp
    qed
    then show ?thesis by (simp add: nonce')
  qed
  have same: "hash b' = compute_hash H st b'"
    by (subst shape) (simp add: hash' nonce' compute_hash_def)
  from k(3) hash' nonce' have good: "meets_difficulty (compute_hash H st (b\<lparr>nonce := nonce b'\<rparr>))"
    by simp
  from nonce' good least unchanged k(2) same shape show ?thesis by simp
qed

lemma demo_pending_nonempty:
  "heap demo_pending (unconfirmed_transactions demo_pending) \<noteq> []" "chain demo_pending \<noteq> []"
  by (simp_all add: demo_defs)

lemma demo_candidate:
  "candidate demo_digest str_nat 8 demo_pending =
     \<lparr>index = 1, transactions = 0, timestamp = 8, previous_hash = ''beef'', nonce = 0,
        transactions_hash = ''beef'', hash = ''beef''\<rparr>"
  by (simp add: demo_defs)

lemma demo_search:
  "proof_of_work demo_digest str_nat (candidate demo_digest str_nat 8 demo_pending) =
     Some (''0000a'', \<lparr>index = 1, transactions = 0, timestamp = 8, previous_hash = ''beef'',
        nonce = 3, transactions_hash = ''beef'', hash = ''0000a''\<rparr>)"
  unfolding demo_candidate by (simp add: demo_defs proof_of_work.simps pow_step_def)

theorem proof_of_work_smallest_nonce_witness:
  "hash (candidate demo_digest str_nat 8 demo_pending)
     = compute_hash demo_digest str_nat (candidate demo_digest str_nat 8 demo_pending)
   \<and> proof_of_work demo_digest str_nat (candidate demo_digest str_nat 8 demo_pending)
     = Some (''0000a'', (candidate demo_digest str_nat 8 demo_pending)\<lparr>nonce := 3, hash := ''0000a''\<rparr>)
   \<and> \<not> meets_difficulty (compute_hash demo_digest str_nat
           ((candidate demo_digest str_nat 8 demo_pending)\<lparr>nonce := 2\<rparr>))
   \<and> ''0000a'' = compute_hash demo_digest str_nat
        ((candidate demo_digest str_nat 8 demo_pending)\<lparr>nonce := 3, hash := ''0000a''\<rparr>)"
proof -
  let ?c = "candidate demo_digest str_nat 8 demo_pending"
  have h1: "hash ?c = compute_hash demo_digest str_nat ?c"
    by (simp add: demo_defs)
  have h2: "proof_of_work demo_digest str_nat ?c = Some (''0000a'', ?c\<lparr>nonce := 3, hash := ''0000a''\<rparr>)"
    by (simp add: demo_search) (simp add: demo_candidate)
  have n: "nonce ?c = 0" by (simp add: candidate_def)
  from proof_of_work_smallest_nonce [OF h1 h2]
  have "\<forall>n. nonce ?c \<le> n \<and> n < 3 \<longrightarrow> \<not> meets_difficulty (compute_hash demo_digest str_nat (?c\<lparr>nonce := n\<rparr>))"
    and "''0000a'' = compute_hash demo_digest str_nat (?c\<lparr>nonce := 3, hash := ''0000a''\<rparr>)"
    by simp_all
  with h1 h2 n show ?thesis by simp
qed

text \<open>
  The loop tests the stored \<open>hash\<close>, not a recomputation. For a block whose stored hash
  meets the target and is not its \<open>compute_hash\<close>, the search returns the stored hash at
  once: the value returned is not \<open>compute_hash\<close> of the block, and the nonce is not one for
  which \<open>compute_hash\<close> meets the target.
\<close>

theorem proof_of_work_stale_hash_counterexample:
  "proof_of_work demo_digest str_nat stale_block = Some (''0000'', stale_block)
   \<and> compute_hash demo_digest str_nat stale_block \<noteq> ''0000''
   \<and> \<not> meets_difficulty (compute_hash demo_digest str_nat stale_block)"
proof -
  have "meets_difficulty (hash stale_block)" by (simp add: demo_defs)
  then have "proof_of_work demo_digest str_nat stale_block = Some (hash stale_block, stale_block)"
    by (subst proof_of_work.simps) simp
  moreover have "hash stale_block = ''0000''" by (simp add: stale_block_def)
  moreover have "compute_hash demo_digest str_nat stale_block = ''beef''" by (simp add: demo_defs)
  ultimately show ?thesis by (simp add: meets_difficulty_take)
qed

section \<open>Mining\<close>

lemma fold_max_ge: "a \<le> fold max xs (a::nat)"
  by (induction xs arbitrary: a) (auto intro: order_trans [OF max.cobounded2])

lemma fold_max_mem: "x \<in> set xs \<Longrightarrow> x \<le> fold max xs (a::nat)"
proof (induction xs arbitrary: a)
  case Nil
  then show ?case by simp
next
  case (Cons y ys)
  show ?case
  proof (cases "x = y")
    case True
    have "y \<le> max y a" by simp
    also have "\<dots> \<le> fold max ys (max y a)" by (rule fold_max_ge)
    finally show ?thesis using True by simp
  next
    case False
    with Cons.prems have "x \<in> set ys" by simp
    then show ?thesis by (simp add: Cons.IH)
  qed
qed

lemma fresh_ref_pool: "unconfirmed_transactions s < fresh_ref s"
  by (simp add: fresh_ref_def fold_max_ge less_Suc_eq_le)

lemma fresh_ref_chain: "b \<in> set (chain s) \<Longrightarrow> transactions b < fresh_ref s"
  by (simp add: fresh_ref_def fold_max_mem less_Suc_eq_le)

text \<open>The block that the search returns for the candidate of \<open>mine\<close>.\<close>

lemma mined_block:
  assumes "proof_of_work H st (candidate H st now s) = Some (h, mined)"
  shows "h = hash mined" "meets_difficulty (hash mined)" "hash mined = compute_hash H st mined"
    "index mined = index (last (chain s)) + 1"
    "transactions mined = unconfirmed_transactions s"
    "previous_hash mined = hash (last (chain s))"
    "timestamp mined = now"
    "transactions_hash mined = H (concat (heap s (unconfirmed_transactions s)))"
proof -
  let ?c = "candidate H st now s"
  from assms obtain k where k: "mined = (pow_step H st ^^ k) ?c" "h = hash mined"
    "meets_difficulty (hash mined)"
    by (rule proof_of_work_result)
  have c: "hash ?c = compute_hash H st ?c"
    unfolding candidate_def by (rule hash_Block_init)
  show "h = hash mined" by (rule k(2))
  show "meets_difficulty (hash mined)" by (rule k(3))
  have "hash mined = compute_hash H st (?c\<lparr>nonce := nonce ?c + int k\<rparr>)"
    unfolding k(1) by (rule pow_consistent [OF c])
  also have "\<dots> = compute_hash H st mined"
    by (simp add: k(1) pow_step_funpow compute_hash_def)
  finally show "hash mined = compute_hash H st mined" .
  show "index mined = index (last (chain s)) + 1"
    by (simp add: k(1) pow_step_funpow candidate_def)
  show "transactions mined = unconfirmed_transactions s"
    by (simp add: k(1) pow_step_funpow candidate_def)
  show "previous_hash mined = hash (last (chain s))"
    by (simp add: k(1) pow_step_funpow candidate_def)
  show "timestamp mined = now"
    by (simp add: k(1) pow_step_funpow candidate_def)
  show "transactions_hash mined = H (concat (heap s (unconfirmed_transactions s)))"
    by (simp add: k(1) pow_step_funpow candidate_def transactions_hash_Block_init)
qed

text \<open>
  \<open>add_block\<close> accepts the block that \<open>mine\<close> has just sealed: its link is the tip it was
  built on, and the search leaves a hash that meets the target and is the block's own.
\<close>

lemma mine_add_block_accepts:
  assumes "proof_of_work H st (candidate H st now s) = Some (h, mined)"
  shows "add_block H st s (mined\<lparr>hash := h\<rparr>) = (True, s\<lparr>chain := chain s @ [mined]\<rparr>)"
proof -
  note m = mined_block [OF assms]
  have "mined\<lparr>hash := h\<rparr> = mined" by (simp add: m(1))
  moreover have "is_valid_proof H st mined"
    using m(2,3) by (simp add: is_valid_proof_def)
  ultimately show ?thesis by (simp add: add_block_def m(6))
qed

lemma mine_search:
  assumes "heap s (unconfirmed_transactions s) \<noteq> []" and "chain s \<noteq> []"
  shows "mine H st now s =
     (case proof_of_work H st (candidate H st now s) of
        None \<Rightarrow> None
      | Some (h, mined) \<Rightarrow> Some (Inr (ReturnedBlock mined), after_mine s mined))"
proof (cases "proof_of_work H st (candidate H st now s)")
  case None
  with assms show ?thesis by (simp add: mine_def candidate_def Let_def)
next
  case (Some r)
  obtain h mined where r: "r = (h, mined)" by (cases r)
  note pw = Some [unfolded r]
  have "mined\<lparr>hash := h\<rparr> = mined" by (simp add: mined_block(1) [OF pw])
  with assms pw mine_add_block_accepts [OF pw] show ?thesis
    by (simp add: mine_def candidate_def [symmetric] Let_def after_mine_def)
qed

lemma mine_cases:
  assumes "mine H st now s = Some (r, s')"
  obtains (empty_pool) "heap s (unconfirmed_transactions s) = []" "r = Inr ReturnedFalse" "s' = s"
  | (empty_chain) "heap s (unconfirmed_transactions s) \<noteq> []" "chain s = []"
      "r = Inl IndexError" "s' = s"
  | (mined) h mined where "heap s (unconfirmed_transactions s) \<noteq> []" "chain s \<noteq> []"
      "proof_of_work H st (candidate H st now s) = Some (h, mined)"
      "r = Inr (ReturnedBlock mined)" "s' = after_mine s mined"
proof (cases "heap s (unconfirmed_transactions s) = []")
  case True
  with assms have "r = Inr ReturnedFalse" "s' = s" by (auto simp: mine_def)
  with True show ?thesis by (rule empty_pool)
next
  case pool: False
  show ?thesis
  proof (cases "chain s = []")
    case True
    with assms pool have "r = Inl IndexError" "s' = s" by (auto simp: mine_def)
    with pool True show ?thesis by (rule empty_chain)
  next
    case False
    from assms have search:
      "(case proof_of_work H st (candidate H st now s) of
          None \<Rightarrow> None
        | Some (h, mined) \<Rightarrow> Some (Inr (ReturnedBlock mined), after_mine s mined)) = Some (r, s')"
      by (simp only: mine_search [OF pool False])
    then obtain h b where pw: "proof_of_work H st (candidate H st now s) = Some (h, b)"
      by (cases "proof_of_work H st (candidate H st now s)") auto
    with search have "r = Inr (ReturnedBlock b)" "s' = after_mine s b" by simp_all
    with pool False pw show ?thesis by (rule mined)
  qed
qed

lemma after_mine_fields:
  "chain (after_mine s mined) = chain s @ [mined]"
  "unconfirmed_transactions (after_mine s mined) = fresh_ref (s\<lparr>chain := chain s @ [mined]\<rparr>)"
  "heap (after_mine s mined) (unconfirmed_transactions (after_mine s mined)) = []"
  "r \<noteq> unconfirmed_transactions (after_mine s mined) \<Longrightarrow> heap (after_mine s mined) r = heap s r"
  by (simp_all add: after_mine_def Let_def)

lemma after_mine_pool_new:
  "unconfirmed_transactions s < unconfirmed_transactions (after_mine s mined)"
  "b \<in> set (chain (after_mine s mined)) \<Longrightarrow>
     transactions b < unconfirmed_transactions (after_mine s mined)"
proof -
  let ?s1 = "s\<lparr>chain := chain s @ [mined]\<rparr>"
  have "unconfirmed_transactions ?s1 < fresh_ref ?s1" by (rule fresh_ref_pool)
  then show "unconfirmed_transactions s < unconfirmed_transactions (after_mine s mined)"
    by (simp add: after_mine_fields)
  assume "b \<in> set (chain (after_mine s mined))"
  then have "b \<in> set (chain ?s1)" by (simp add: after_mine_fields)
  then have "transactions b < fresh_ref ?s1" by (rule fresh_ref_chain)
  then show "transactions b < unconfirmed_transactions (after_mine s mined)"
    by (simp add: after_mine_fields)
qed

text \<open>
  Claim C6. \<open>mine\<close> on an empty pending pool returns \<open>False\<close> and leaves the engine, its
  chain and its pool included, as it was.
\<close>

theorem mine_empty_pool:
  "heap s (unconfirmed_transactions s) = [] \<Longrightarrow> mine H st now s = Some (Inr ReturnedFalse, s)"
  by (simp add: mine_def)

theorem mine_empty_pool_witness:
  "heap demo_engine (unconfirmed_transactions demo_engine) = []
   \<and> mine demo_digest str_nat 8 demo_engine = Some (Inr ReturnedFalse, demo_engine)"
proof -
  have h1: "heap demo_engine (unconfirmed_transactions demo_engine) = []"
    by (simp add: demo_defs)
  from h1 mine_empty_pool [OF h1] show ?thesis by simp
qed

text \<open>
  Claim C1. On an engine with a non-empty pending pool (and its genesis block), where some
  nonce gives the candidate a hash that meets the target, \<open>mine\<close> returns a block: its index
  is the index of the tip plus one, its transactions are the contents the pool had at the
  call, in order, its \<open>previous_hash\<close> is the hash of the tip, and its hash begins with
  \<open>difficulty\<close> zero characters. The block is appended to the chain, and the pool is empty
  afterwards.
\<close>

theorem mine_produces_block:
  assumes "heap s (unconfirmed_transactions s) \<noteq> []" and "chain s \<noteq> []"
    and "\<exists>k. meets_difficulty (compute_hash H st ((candidate H st now s)\<lparr>nonce := int k\<rparr>))"
  shows "\<exists>b s'. mine H st now s = Some (Inr (ReturnedBlock b), s')
     \<and> index b = index (last (chain s)) + 1
     \<and> heap s' (transactions b) = heap s (unconfirmed_transactions s)
     \<and> previous_hash b = hash (last (chain s))
     \<and> startswith (hash b) (replicate difficulty CHR ''0'')
     \<and> chain s' = chain s @ [b]
     \<and> heap s' (unconfirmed_transactions s') = []"
proof -
  let ?c = "candidate H st now s"
  from assms(3) obtain k where "meets_difficulty (compute_hash H st (?c\<lparr>nonce := int k\<rparr>))" ..
  then have "meets_difficulty (compute_hash H st (?c\<lparr>nonce := nonce ?c + int k\<rparr>))"
    by (simp add: candidate_def)
  moreover have "hash ?c = compute_hash H st ?c"
    unfolding candidate_def by (rule hash_Block_init)
  ultimately obtain r where "proof_of_work H st ?c = Some r"
    using proof_of_work_terminates by blast
  then obtain h b where pw: "proof_of_work H st ?c = Some (h, b)" by (cases r) simp
  note m = mined_block [OF pw]
  let ?s' = "after_mine s b"
  have ret: "mine H st now s = Some (Inr (ReturnedBlock b), ?s')"
    by (simp add: mine_search [OF assms(1,2)] pw)
  have "transactions b \<noteq> unconfirmed_transactions ?s'"
    using after_mine_pool_new(1) [of s b] by (simp add: m(5))
  then have kept: "heap ?s' (transactions b) = heap s (unconfirmed_transactions s)"
    by (simp add: after_mine_fields(4) m(5))
  have good: "startswith (hash b) (replicate difficulty CHR ''0'')"
    using m(2) by (simp add: meets_difficulty_def)
  have appended: "chain ?s' = chain s @ [b]"
    by (rule after_mine_fields(1))
  have cleared: "heap ?s' (unconfirmed_transactions ?s') = []"
    by (rule after_mine_fields(3))
  from ret m(4) kept m(6) good appended cleared show ?thesis by blast
qed

theorem mine_produces_block_witness:
  "heap demo_pending (unconfirmed_transactions demo_pending) \<noteq> []
   \<and> chain demo_pending \<noteq> []
   \<and> meets_difficulty (compute_hash demo_digest str_nat
         ((candidate demo_digest str_nat 8 demo_pending)\<lparr>nonce := int 3\<rparr>))
   \<and> (\<exists>b s'. mine demo_digest str_nat 8 demo_pending = Some (Inr (ReturnedBlock b), s')
     \<and> index b = index (last (chain demo_pending)) + 1
     \<and> heap s' (transactions b) = heap demo_pending (unconfirmed_transactions demo_pending)
     \<and> previous_hash b = hash (last (chain demo_pending))
     \<and> startswith (hash b) (replicate difficulty CHR ''0'')
     \<and> chain s' = chain demo_pending @ [b]
     \<and> heap s' (unconfirmed_transactions s') = [])"
proof -
  have h1: "heap demo_pending (unconfirmed_transactions demo_pending) \<noteq> []"
    by (simp add: demo_defs)
  have h2: "chain demo_pending \<noteq> []"
    by (simp add: demo_defs)
  have h3: "meets_difficulty (compute_hash demo_digest str_nat
         ((candidate demo_digest str_nat 8 demo_pending)\<lparr>nonce := int 3\<rparr>))"
    by (simp add: demo_defs)
  then have ex: "\<exists>k. meets_difficulty (compute_hash demo_digest str_nat
         ((candidate demo_digest str_nat 8 demo_pending)\<lparr>nonce := int k\<rparr>))" ..
  from h1 h2 h3 mine_produces_block [OF h1 h2 ex] show ?thesis by blast
qed


text \<open>After the search, \<open>mine\<close> runs its last three statements on the sealed block.\<close>

lemma mine_runs_tail:
  assumes "heap s (unconfirmed_transactions s) \<noteq> []" and "chain s \<noteq> []"
  shows "mine H st now s =
     (case proof_of_work H st (candidate H st now s) of
        None \<Rightarrow> None
      | Some (h, mined) \<Rightarrow>
          Some (Inr (fst (mine_tail H st s (mined\<lparr>hash := h\<rparr>))),
                snd (mine_tail H st s (mined\<lparr>hash := h\<rparr>))))"
  using assms
  by (simp add: mine_def candidate_def [symmetric] mine_tail_def Let_def split: option.splits)



section \<open>The chain of every reachable engine is linked\<close>

lemma linked_append:
  "linked (c @ [b]) \<longleftrightarrow> linked c \<and> (c = [] \<or> previous_hash b = hash (last c))"
  by (induction c rule: linked.induct) auto

lemma linked_nth:
  "linked c \<Longrightarrow> 0 < i \<Longrightarrow> i < length c \<Longrightarrow> previous_hash (c ! i) = hash (c ! (i - 1))"
proof (induction c arbitrary: i rule: linked.induct)
  case (1 a b bs)
  show ?case
  proof (cases "i = 1")
    case True
    with 1(2) show ?thesis by simp
  next
    case False
    with 1(3) obtain j where j: "i = Suc j" "0 < j" by (cases i) auto
    with 1(4) have "j < length (b # bs)" by simp
    with 1(1) [of j] 1(2) j show ?thesis by simp
  qed
qed simp_all

lemma linked_init: "linked (chain (Blockchain_init H st now))"
  by (simp add: Blockchain_init_def create_genesis_block_def Let_def)

lemma add_block_linked: "linked (chain s) \<Longrightarrow> linked (chain (snd (add_block H st s b)))"
  by (auto simp: add_block_def linked_append)

lemma mine_linked:
  assumes "mine H st now s = Some (r, s')" and "linked (chain s)"
  shows "linked (chain s')"
  using assms(1)
proof (cases rule: mine_cases)
  case (mined h b)
  from mined(3) have "previous_hash b = hash (last (chain s))" by (rule mined_block(6))
  with assms(2) mined(5) show ?thesis by (simp add: after_mine_fields linked_append)
qed (simp_all add: assms(2))

lemma apply_op_linked:
  "apply_op H st s x = Some s' \<Longrightarrow> linked (chain s) \<Longrightarrow> linked (chain s')"
proof (cases x)
  case (AddTransaction p)
  assume "apply_op H st s x = Some s'" "linked (chain s)"
  with AddTransaction show ?thesis by (auto simp: add_new_transaction_def)
next
  case (Mine now)
  assume "apply_op H st s x = Some s'" "linked (chain s)"
  with Mine show ?thesis by (auto dest: mine_linked)
next
  case (AddBlock b)
  assume "apply_op H st s x = Some s'" "linked (chain s)"
  with AddBlock show ?thesis by (auto dest: add_block_linked)
qed

lemma run_linked:
  "run H st ops s = Some s' \<Longrightarrow> linked (chain s) \<Longrightarrow> linked (chain s')"
proof (induction ops arbitrary: s)
  case Nil
  then show ?case by simp
next
  case (Cons x xs)
  from Cons.prems(1) obtain s1 where s1: "apply_op H st s x = Some s1" "run H st xs s1 = Some s'"
    by (auto split: option.splits)
  from s1(1) Cons.prems(2) have "linked (chain s1)" by (rule apply_op_linked)
  with s1(2) show ?case by (rule Cons.IH)
qed

text \<open>
  Claim C2. In every engine reached from a new one by calls of \<open>add_new_transaction\<close>,
  \<open>mine\<close> and \<open>add_block\<close>, in any number and order and with any arguments, each block
  after the first has as \<open>previous_hash\<close> the hash of the block before it.
\<close>

theorem chain_linked:
  assumes "run H st ops (Blockchain_init H st t0) = Some s"
    and "0 < i" and "i < length (chain s)"
  shows "previous_hash (chain s ! i) = hash (chain s ! (i - 1))"
proof -
  have "linked (chain s)" using assms(1) linked_init by (rule run_linked)
  then show ?thesis using assms(2,3) by (rule linked_nth)
qed

lemma demo_mine:
  "mine demo_digest str_nat 8 demo_pending =
     Some (Inr (ReturnedBlock \<lparr>index = 1, transactions = 0, timestamp = 8,
             previous_hash = ''beef'', nonce = 3, transactions_hash = ''beef'', hash = ''0000a''\<rparr>),
           after_mine demo_pending \<lparr>index = 1, transactions = 0, timestamp = 8,
             previous_hash = ''beef'', nonce = 3, transactions_hash = ''beef'', hash = ''0000a''\<rparr>)"
  by (simp add: mine_search [OF demo_pending_nonempty] demo_search)

lemma demo_run: "run demo_digest str_nat demo_ops demo_engine = Some demo_end"
proof -
  have "run demo_digest str_nat demo_ops demo_engine =
     Some (after_mine demo_pending \<lparr>index = 1, transactions = 0, timestamp = 8,
             previous_hash = ''beef'', nonce = 3, transactions_hash = ''beef'', hash = ''0000a''\<rparr>)"
    by (simp add: demo_ops_def demo_pending_def [symmetric] demo_mine)
  then show ?thesis by (simp add: demo_end_def)
qed

lemma demo_end_chain:
  "chain demo_end =
     [\<lparr>index = 0, transactions = 1, timestamp = 7, previous_hash = ''0'', nonce = 0,
        transactions_hash = ''beef'', hash = ''beef''\<rparr>,
      \<lparr>index = 1, transactions = 0, timestamp = 8, previous_hash = ''beef'', nonce = 3,
        transactions_hash = ''beef'', hash = ''0000a''\<rparr>]"
proof -
  have "chain demo_pending = [\<lparr>index = 0, transactions = 1, timestamp = 7, previous_hash = ''0'',
      nonce = 0, transactions_hash = ''beef'', hash = ''beef''\<rparr>]"
    by (simp add: demo_defs)
  then show ?thesis
    using demo_run by (simp add: demo_end_def demo_ops_def demo_pending_def [symmetric] demo_mine
        after_mine_fields)
qed

theorem chain_linked_witness:
  "run demo_digest str_nat demo_ops (Blockchain_init demo_digest str_nat 7) = Some demo_end
   \<and> (0::nat) < 1 \<and> 1 < length (chain demo_end)
   \<and> previous_hash (chain demo_end ! 1) = hash (chain demo_end ! (1 - 1))"
proof -
  have h1: "run demo_digest str_nat demo_ops (Blockchain_init demo_digest str_nat 7) = Some demo_end"
    using demo_run by (simp add: demo_engine_def)
  have h2: "(0::nat) < 1" by simp
  have h3: "1 < length (chain demo_end)" by (simp add: demo_end_chain)
  from h1 h2 h3 chain_linked [OF h1 h2 h3] show ?thesis by blast
qed

section \<open>A sealed block that comes too late\<close>









section \<open>What a submission changes\<close>

lemma unshared_init: "unshared (Blockchain_init H st now)"
  by (simp add: unshared_def Blockchain_init_def create_genesis_block_def Let_def fresh_ref_def)

lemma unshared_add_new_transaction: "unshared s \<Longrightarrow> unshared (add_new_transaction s p)"
  by (simp add: unshared_def add_new_transaction_def)

lemma unshared_mine:
  assumes "mine H st now s = Some (r, s')" and "unshared s"
  shows "unshared s'"
  using assms(1)
proof (cases rule: mine_cases)
  case (mined h b)
  have "transactions c \<noteq> unconfirmed_transactions (after_mine s b)"
    if "c \<in> set (chain (after_mine s b))" for c
    using after_mine_pool_new(2) [OF that] by simp
  with mined(5) show ?thesis by (simp add: unshared_def list_all_iff)
qed (simp_all add: assms(2))

lemma unshared_add_block:
  "unshared s \<Longrightarrow> transactions b \<noteq> unconfirmed_transactions s \<Longrightarrow>
     unshared (snd (add_block H st s b))"
  by (simp add: unshared_def add_block_def)

lemma unshared_run:
  assumes "run H st ops s = Some s'" and "unshared s" and "\<forall>b. AddBlock b \<notin> set ops"
  shows "unshared s'"
  using assms
proof (induction ops arbitrary: s)
  case Nil
  then show ?case by simp
next
  case (Cons x xs)
  from Cons.prems(1) obtain s1 where s1: "apply_op H st s x = Some s1" "run H st xs s1 = Some s'"
    by (auto split: option.splits)
  have "unshared s1"
  proof (cases x)
    case (AddTransaction p)
    with s1(1) Cons.prems(2) show ?thesis by (auto simp: unshared_add_new_transaction)
  next
    case (Mine now)
    with s1(1) Cons.prems(2) show ?thesis by (auto dest: unshared_mine)
  next
    case (AddBlock b)
    with Cons.prems(3) show ?thesis by auto
  qed
  moreover from Cons.prems(3) have "\<forall>b. AddBlock b \<notin> set xs" by auto
  ultimately show ?case using s1(2) Cons.IH by blast
qed

text \<open>
  Claim C10, for an engine none of whose blocks holds the pending list itself. This is so
  for a new engine and stays so under \<open>add_new_transaction\<close> and \<open>mine\<close> (lemma
  \<open>unshared_run\<close>), since \<open>mine\<close> binds the pool to a new list. There
  \<open>add_new_transaction\<close> appends the payload to the end of the pool and changes nothing
  else: the pool is the same list object, the chain is the same sequence of the same blocks,
  and the transactions of each of them are what they were.
\<close>

theorem add_new_transaction_frame:
  assumes "unshared s"
  shows "heap (add_new_transaction s p) (unconfirmed_transactions s)
           = heap s (unconfirmed_transactions s) @ [p]
     \<and> unconfirmed_transactions (add_new_transaction s p) = unconfirmed_transactions s
     \<and> chain (add_new_transaction s p) = chain s
     \<and> (\<forall>b \<in> set (chain s). heap (add_new_transaction s p) (transactions b) = heap s (transactions b))"
  using assms by (simp add: add_new_transaction_def unshared_def list_all_iff)

lemma demo_end_mined_transactions:
  "heap demo_end (transactions (last (chain demo_end))) = [''A pays B 1 unit'', ''B pays C 2 units'']"
proof -
  let ?m = "\<lparr>index = 1, transactions = 0, timestamp = 8::nat, previous_hash = ''beef'',
              nonce = 3, transactions_hash = ''beef'', hash = ''0000a''\<rparr>"
  have e: "demo_end = after_mine demo_pending ?m"
    by (simp add: demo_end_def demo_ops_def demo_pending_def [symmetric] demo_mine)
  have "unconfirmed_transactions demo_pending < unconfirmed_transactions (after_mine demo_pending ?m)"
    by (rule after_mine_pool_new(1))
  then have "0 \<noteq> unconfirmed_transactions (after_mine demo_pending ?m)"
    by simp
  then have "heap (after_mine demo_pending ?m) 0 = heap demo_pending 0"
    by (rule after_mine_fields(4))
  also have "\<dots> = [''A pays B 1 unit'', ''B pays C 2 units'']"
    by (simp add: demo_defs)
  finally have "heap demo_end 0 = [''A pays B 1 unit'', ''B pays C 2 units'']"
    by (simp only: e)
  then show ?thesis by (simp add: demo_end_chain)
qed

theorem add_new_transaction_frame_witness:
  "unshared demo_end
   \<and> heap (add_new_transaction demo_end ''C pays A 5 units'') (unconfirmed_transactions demo_end)
       = heap demo_end (unconfirmed_transactions demo_end) @ [''C pays A 5 units'']
   \<and> chain (add_new_transaction demo_end ''C pays A 5 units'') = chain demo_end
   \<and> heap (add_new_transaction demo_end ''C pays A 5 units'') (transactions (last (chain demo_end)))
       = [''A pays B 1 unit'', ''B pays C 2 units'']"
proof -
  have h1: "unshared demo_end"
    using demo_run unshared_init unfolding demo_engine_def
    by (rule unshared_run) (simp add: demo_ops_def)
  have m: "last (chain demo_end) \<in> set (chain demo_end)" by (simp add: demo_end_chain)
  note c = demo_end_mined_transactions
  from h1 m c add_new_transaction_frame [OF h1, of "''C pays A 5 units''"] show ?thesis by simp
qed

text \<open>
  A block keeps the list it was given, and \<open>add_new_transaction\<close> appends in place. Once
  \<open>add_block\<close> has accepted a block built on the engine's pending list, a submission changes
  the transactions of that block of the chain.
\<close>

theorem add_new_transaction_shared_list_counterexample:
  "fst (add_block demo_digest str_nat demo_engine shared_block)
   \<and> chain demo_shared = chain demo_engine @ [shared_block]
   \<and> heap demo_shared (transactions shared_block) = []
   \<and> heap (add_new_transaction demo_shared ''x'') (transactions shared_block) = [''x'']"
  by (simp add: demo_defs engine_defs)

end
